theory Spec2Isabelle
  imports Main "HOL-Library.Word"
begin

section \<open>The dependency graph of iamemilio/dependencyFramework\<close>

text \<open>
  The Go package \<^verbatim>\<open>dependencygraph\<close> keeps a graph of \<^verbatim>\<open>*Node\<close> values that point at
  each other through the slice \<^verbatim>\<open>dependencyOf\<close>.  The pointers are modelled by an explicit
  store: a list of node records, where the address of a node is its index.  Every
  method takes the store and returns the store it leaves behind, next to the Go
  \<^verbatim>\<open>error\<close> value (\<open>None\<close> for \<^verbatim>\<open>nil\<close>).

  The embedded \<^verbatim>\<open>sync.Mutex\<close> of a node is left out: the methods are modelled as they run
  for one caller at a time that finds every mutex free and does not lock a mutex it
  holds.  \<^verbatim>\<open>Pass\<close> and \<^verbatim>\<open>Fail\<close> hold the mutex of their node while they lock the mutex of
  each dependent in turn, so the second needs that no node is its own direct
  dependent; \<^verbatim>\<open>DependsOn\<close> registers no such edge.
\<close>

subsection \<open>Data\<close>

type_synonym addr = nat

text \<open>\<^verbatim>\<open>type status struct { Failed bool }\<close>; a node holds a \<^verbatim>\<open>*status\<close>, which is
  \<^verbatim>\<open>nil\<close> until the node has run.\<close>

record status =
  Failed :: bool

text \<open>\<^verbatim>\<open>depsRemaining\<close> is a Go \<^verbatim>\<open>int\<close>, 64 bits wide on the 64-bit targets: \<open>+\<close> and
  \<open>-\<close> wrap around.\<close>

record node =
  name :: string
  blocked :: bool
  hasDependencies :: bool
  depsRemaining :: "64 word"
  dependencyOf :: "addr list"
  status :: "status option"

type_synonym store = "node list"

text \<open>The error values the code builds with \<^verbatim>\<open>errors.New\<close> and \<^verbatim>\<open>fmt.Errorf\<close>, named by
  their kind; the two messages that quote a node name carry it.  \<open>NilDereference\<close> is the
  run-time panic of Go on a field read through a \<^verbatim>\<open>nil\<close> pointer.\<close>

datatype error =
    EmptyName
  | SelfDependency
  | DuplicateDependency string
  | AlreadyResolved
  | CircularDependency
  | NotResolved string
  | EmptyStack
  | NilDereference

subsection \<open>The node stack (\<^verbatim>\<open>nodestack.go\<close>)\<close>

type_synonym nodeStack = "addr list"

definition New :: nodeStack where
  "New = []"

definition Push :: "nodeStack \<Rightarrow> addr \<Rightarrow> nodeStack" where
  "Push s m = s @ [m]"

definition Pop :: "nodeStack \<Rightarrow> error + (addr \<times> nodeStack)" where
  "Pop s =
     (let l = length s in
      if l = 0 then Inl EmptyStack
      else Inr (s ! (l - 1), take (l - 1) s))"

definition Len :: "nodeStack \<Rightarrow> nat" where
  "Len s = length s"

subsection \<open>Construction\<close>

text \<open>\<^verbatim>\<open>&Node{name: name}\<close>: every other field has the zero value of its type.  The new
  node is stored behind the nodes that exist, and its address is returned.\<close>

definition zeroNode :: "string \<Rightarrow> node" where
  "zeroNode n =
     \<lparr>name = n, blocked = False, hasDependencies = False, depsRemaining = 0,
      dependencyOf = [], status = None\<rparr>"

definition NewNode :: "string \<Rightarrow> store \<Rightarrow> addr \<times> store" where
  "NewNode n h = (length h, h @ [zeroNode n])"

text \<open>\<^verbatim>\<open>NewModule\<close> of \<^verbatim>\<open>dependencyGraph.go\<close>, the older copy of the same graph: its
  \<^verbatim>\<open>Module\<close> has the fields of \<^verbatim>\<open>Node\<close> and its methods have the bodies of the methods
  of \<^verbatim>\<open>Node\<close>, so both share the record above.\<close>

definition NewModule :: "string \<Rightarrow> store \<Rightarrow> error + (addr \<times> store)" where
  "NewModule n h =
     (if n = [] then Inl EmptyName
      else Inr (length h, h @ [zeroNode n]))"

text \<open>\<^verbatim>\<open>NewJob\<close> of the job wrapper, reduced to the node it builds: it checks the name
  and then calls \<^verbatim>\<open>graph.NewNode\<close>.\<close>

definition NewJob :: "string \<Rightarrow> store \<Rightarrow> error + (addr \<times> store)" where
  "NewJob n h =
     (if n = [] then Inl EmptyName
      else Inr (NewNode n h))"

subsection \<open>Registering an edge\<close>

text \<open>\<^verbatim>\<open>m.DependsOn(dep)\<close>.  The first test compares the two names.  The loop over
  \<^verbatim>\<open>dep.dependencyOf\<close> compares \<^verbatim>\<open>d.name\<close> with \<^verbatim>\<open>dep.name\<close> and returns the duplicate error on
  the first match; \<open>list_ex\<close> is that loop.  Then \<open>m\<close> is appended to the list of \<open>dep\<close>,
  and the counter and the flag of \<open>m\<close> are set.  (The code returns the duplicate error
  without unlocking \<open>dep\<close>; the mutex is not in the store.)\<close>

definition DependsOn :: "store \<Rightarrow> addr \<Rightarrow> addr \<Rightarrow> error option \<times> store" where
  "DependsOn h m dep =
     (if name (h ! dep) = name (h ! m) then (Some SelfDependency, h)
      else if list_ex (\<lambda>d. name (h ! d) = name (h ! dep)) (dependencyOf (h ! dep))
        then (Some (DuplicateDependency (name (h ! dep))), h)
      else
        let h1 = h[dep := (h ! dep)\<lparr>dependencyOf := dependencyOf (h ! dep) @ [m]\<rparr>];
            h2 = h1[m := (h1 ! m)\<lparr>depsRemaining := depsRemaining (h1 ! m) + 1\<rparr>];
            h3 = h2[m := (h2 ! m)\<lparr>hasDependencies := True\<rparr>]
        in (None, h3))"

subsection \<open>Reporting a result\<close>

text \<open>The loop \<^verbatim>\<open>for _, dep := range m.dependencyOf { dep.depsRemaining -= 1 }\<close> of \<^verbatim>\<open>Pass\<close>
  and \<^verbatim>\<open>Fail\<close>, and the assignment \<^verbatim>\<open>m.status = &status{Failed: f}\<close>.\<close>

definition decrement :: "addr \<Rightarrow> store \<Rightarrow> store" where
  "decrement dep h = h[dep := (h ! dep)\<lparr>depsRemaining := depsRemaining (h ! dep) - 1\<rparr>]"

definition decrementAll :: "addr list \<Rightarrow> store \<Rightarrow> store" where
  "decrementAll deps h = fold decrement deps h"

definition setStatus :: "addr \<Rightarrow> bool \<Rightarrow> store \<Rightarrow> store" where
  "setStatus m f h = h[m := (h ! m)\<lparr>status := Some \<lparr>Failed = f\<rparr>\<rparr>]"

definition Pass :: "store \<Rightarrow> addr \<Rightarrow> error option \<times> store" where
  "Pass h m =
     (if status (h ! m) \<noteq> None then (Some AlreadyResolved, h)
      else
        let h1 = setStatus m False h
        in (None, decrementAll (dependencyOf (h1 ! m)) h1))"

text \<open>The inner loop of the traversal pushes the dependents whose name is not in
  \<^verbatim>\<open>visited\<close>.  A Go \<^verbatim>\<open>map[string]bool\<close> answers \<^verbatim>\<open>false\<close> for a missing key, so the map is
  a function into \<open>bool\<close>.\<close>

definition pushUnvisited :: "store \<Rightarrow> (string \<Rightarrow> bool) \<Rightarrow> addr list \<Rightarrow> nodeStack \<Rightarrow> nodeStack" where
  "pushUnvisited h visited deps nodes =
     fold (\<lambda>dependency st. if \<not> visited (name (h ! dependency)) then Push st dependency else st)
       deps nodes"

definition block :: "addr \<Rightarrow> store \<Rightarrow> store" where
  "block n h = h[n := (h ! n)\<lparr>blocked := True\<rparr>]"

text \<open>The loop \<^verbatim>\<open>for nodes.Len() != 0\<close> of \<^verbatim>\<open>Fail\<close>.  It is a partial function into
  \<open>option\<close>: \<open>None\<close> is the loop that does not come back.  The error of \<^verbatim>\<open>Pop\<close> is
  dropped by the code, which then reads \<^verbatim>\<open>node.name\<close> through the \<^verbatim>\<open>nil\<close> it got.\<close>

partial_function (option) blockLoop ::
  "addr \<Rightarrow> nodeStack \<Rightarrow> (string \<Rightarrow> bool) \<Rightarrow> store \<Rightarrow> (error option \<times> store) option" where
  "blockLoop m nodes visited h =
     (if Len nodes = 0 then Some (None, h)
      else
        (case Pop nodes of
           Inl e \<Rightarrow> Some (Some NilDereference, h)
         | Inr (node, nodes') \<Rightarrow>
             if name (h ! node) = name (h ! m) then Some (Some CircularDependency, h)
             else if \<not> visited (name (h ! node)) then
               blockLoop m
                 (pushUnvisited (block node h) (visited(name (h ! node) := True))
                    (dependencyOf (block node h ! node)) nodes')
                 (visited(name (h ! node) := True))
                 (block node h)
             else blockLoop m nodes' visited h))"

text \<open>The equation of the loop is also the one it is evaluated with.\<close>

declare blockLoop.simps [code]

definition Fail :: "store \<Rightarrow> addr \<Rightarrow> (error option \<times> store) option" where
  "Fail h m =
     (if status (h ! m) \<noteq> None then Some (Some AlreadyResolved, h)
      else
        let h1 = setStatus m True h;
            h2 = decrementAll (dependencyOf (h1 ! m)) h1;
            nodes = fold (\<lambda>md st. Push st md) (dependencyOf (h2 ! m)) New;
            visited = (\<lambda>_. False)(name (h2 ! m) := True)
        in blockLoop m nodes visited h2)"

subsection \<open>Stepping\<close>

text \<open>The test \<^verbatim>\<open>!dependency.blocked && dependency.depsRemaining == 0\<close>, and the two nested
  loops of \<^verbatim>\<open>Step\<close>: the outer one returns at the first node without a status, the inner
  one appends the ready dependents to \<^verbatim>\<open>depth\<close>.\<close>

definition ready :: "store \<Rightarrow> addr \<Rightarrow> bool" where
  "ready h dependency \<longleftrightarrow> \<not> blocked (h ! dependency) \<and> depsRemaining (h ! dependency) = 0"

fun StepLoop :: "store \<Rightarrow> addr list \<Rightarrow> addr list \<Rightarrow> error + addr list" where
  "StepLoop h [] depth = Inr depth"
| "StepLoop h (node # nodes) depth =
     (if status (h ! node) = None then Inl (NotResolved (name (h ! node)))
      else StepLoop h nodes
             (fold (\<lambda>dependency d. if ready h dependency then d @ [dependency] else d)
                (dependencyOf (h ! node)) depth))"

definition Step :: "store \<Rightarrow> addr list \<Rightarrow> error + addr list" where
  "Step h nodes = StepLoop h nodes []"

subsection \<open>Well-formed stores and the graph of a store\<close>

text \<open>A Go pointer in \<^verbatim>\<open>dependencyOf\<close> always points at a node: in a well-formed store
  every address in an edge list is an index of the store.\<close>

definition wf_store :: "store \<Rightarrow> bool" where
  "wf_store h \<longleftrightarrow> list_all (\<lambda>n. list_all (\<lambda>d. d < length h) (dependencyOf n)) h"



text \<open>What the traversal may do to a store: raise \<^verbatim>\<open>blocked\<close> flags, and nothing else.\<close>

definition frame :: "store \<Rightarrow> store \<Rightarrow> bool" where
  "frame h h' \<longleftrightarrow>
     length h' = length h \<and>
     (\<forall>k. name (h' ! k) = name (h ! k) \<and>
          hasDependencies (h' ! k) = hasDependencies (h ! k) \<and>
          depsRemaining (h' ! k) = depsRemaining (h ! k) \<and>
          dependencyOf (h' ! k) = dependencyOf (h ! k) \<and>
          status (h' ! k) = status (h ! k) \<and>
          (blocked (h ! k) \<longrightarrow> blocked (h' ! k)))"

text \<open>The number of names in the store that the traversal has not visited yet.\<close>

definition unvisited :: "(string \<Rightarrow> bool) \<Rightarrow> store \<Rightarrow> nat" where
  "unvisited vis h = card {x \<in> set (map name h). \<not> vis x}"



subsection \<open>Graphs built through the interface\<close>

text \<open>As \<^verbatim>\<open>main\<close> does: create the nodes, then register the edges and drop the errors.
  A pair \<open>(m, dep)\<close> is the call \<^verbatim>\<open>m.DependsOn(dep)\<close>.\<close>

definition newNodes :: "string list \<Rightarrow> store" where
  "newNodes names = fold (\<lambda>n h. snd (NewNode n h)) names []"

definition dependsOnAll :: "(addr \<times> addr) list \<Rightarrow> store \<Rightarrow> store" where
  "dependsOnAll es h = fold (\<lambda>(m, dep) h. snd (DependsOn h m dep)) es h"

text \<open>No node has a direct dependent that carries its own name.\<close>

definition no_own_name :: "store \<Rightarrow> bool" where
  "no_own_name h \<longleftrightarrow>
     (\<forall>k<length h. \<forall>d\<in>set (dependencyOf (h ! k)). name (h ! d) \<noteq> name (h ! k))"

text \<open>The stores that calls of the interface build from nothing; \<^verbatim>\<open>DependsOn\<close>, \<^verbatim>\<open>Pass\<close> and
  \<^verbatim>\<open>Fail\<close> are called on nodes that exist.\<close>

inductive built :: "store \<Rightarrow> bool" where
  built_empty: "built []"
| built_NewNode: "built h \<Longrightarrow> built (snd (NewNode n h))"
| built_DependsOn: "built h \<Longrightarrow> m < length h \<Longrightarrow> dep < length h \<Longrightarrow> built (snd (DependsOn h m dep))"
| built_Pass: "built h \<Longrightarrow> m < length h \<Longrightarrow> built (snd (Pass h m))"
| built_Fail: "built h \<Longrightarrow> m < length h \<Longrightarrow> Fail h m = Some (e, h') \<Longrightarrow> built h'"

text \<open>Two nodes with one name.\<close>

definition twins :: store where
  "twins = newNodes [''job'', ''job'']"

text \<open>Two nodes without edges.\<close>

definition pair :: store where
  "pair = newNodes [''a'', ''b'']"

text \<open>\<open>X\<close> depends on \<open>Y\<close>, \<open>Y\<close> on \<open>Z\<close>, \<open>Z\<close> on \<open>X\<close>.\<close>

definition cycle3 :: store where
  "cycle3 = dependsOnAll [(0, 1), (1, 2), (2, 0)] (newNodes [''X'', ''Y'', ''Z''])"

text \<open>\<open>B\<close> depends on \<open>A\<close>, \<open>C\<close> on \<open>B\<close>; \<open>D\<close> stands alone.\<close>

definition chain :: store where
  "chain = dependsOnAll [(1, 0), (2, 1)] (newNodes [''A'', ''B'', ''C'', ''D''])"

text \<open>Roots \<open>A\<close> and \<open>D\<close>; \<open>B\<close> depends on \<open>A\<close>, \<open>E\<close> on \<open>B\<close> and \<open>D\<close>, \<open>F\<close> on \<open>E\<close>;
  \<open>C\<close> stands alone.\<close>

definition diamond :: store where
  "diamond = dependsOnAll [(1, 0), (4, 1), (4, 3), (5, 4)] (newNodes [''A'', ''B'', ''C'', ''D'', ''E'', ''F''])"

text \<open>The same edge registered once, and twice.\<close>

definition pairOnce :: store where
  "pairOnce = dependsOnAll [(1, 0)] pair"

definition pairTwice :: store where
  "pairTwice = dependsOnAll [(1, 0), (1, 0)] pair"

text \<open>The chain after \<^verbatim>\<open>A.Pass()\<close>, and after \<^verbatim>\<open>A.Fail()\<close> instead.\<close>

definition chainPassed :: store where
  "chainPassed =
     [\<lparr>name = ''A'', blocked = False, hasDependencies = False, depsRemaining = 0,
       dependencyOf = [1], status = Some \<lparr>Failed = False\<rparr>\<rparr>,
      \<lparr>name = ''B'', blocked = False, hasDependencies = True, depsRemaining = 0,
       dependencyOf = [2], status = None\<rparr>,
      \<lparr>name = ''C'', blocked = False, hasDependencies = True, depsRemaining = 1,
       dependencyOf = [], status = None\<rparr>,
      \<lparr>name = ''D'', blocked = False, hasDependencies = False, depsRemaining = 0,
       dependencyOf = [], status = None\<rparr>]"

definition chainFailed :: store where
  "chainFailed =
     [\<lparr>name = ''A'', blocked = False, hasDependencies = False, depsRemaining = 0,
       dependencyOf = [1], status = Some \<lparr>Failed = True\<rparr>\<rparr>,
      \<lparr>name = ''B'', blocked = True, hasDependencies = True, depsRemaining = 0,
       dependencyOf = [2], status = None\<rparr>,
      \<lparr>name = ''C'', blocked = True, hasDependencies = True, depsRemaining = 1,
       dependencyOf = [], status = None\<rparr>,
      \<lparr>name = ''D'', blocked = False, hasDependencies = False, depsRemaining = 0,
       dependencyOf = [], status = None\<rparr>]"



text \<open>The diamond after \<^verbatim>\<open>A.Pass()\<close>, and after \<^verbatim>\<open>D.Pass()\<close> as well.\<close>

definition diamondA :: store where
  "diamondA = snd (Pass diamond 0)"

definition diamondAD :: store where
  "diamondAD = snd (Pass diamondA 3)"

section \<open>Properties\<close>

subsection \<open>The stack and the two push loops\<close>

lemma Pop_snoc: "Pop (xs @ [x]) = Inr (x, xs)"
  by (simp add: Pop_def)

lemma fold_Push: "fold (\<lambda>md st. Push st md) ds st = st @ ds"
  by (induction ds arbitrary: st) (simp_all add: Push_def)

lemma pushUnvisited_filter:
  "pushUnvisited h vis deps st = st @ filter (\<lambda>d. \<not> vis (name (h ! d))) deps"
  by (induction deps arbitrary: st) (simp_all add: pushUnvisited_def Push_def)

lemma length_block: "length (block n h) = length h"
  by (simp add: block_def)

lemma nth_block:
  "block n h ! k = (if k = n \<and> n < length h then (h ! n)\<lparr>blocked := True\<rparr> else h ! k)"
  by (cases "k = n"; cases "n < length h") (simp_all add: block_def list_update_beyond)

lemma frame_refl: "frame h h"
  by (simp add: frame_def)

lemma frame_trans: "frame h h1 \<Longrightarrow> frame h1 h2 \<Longrightarrow> frame h h2"
  by (simp add: frame_def)

lemma frame_block: "frame h (block n h)"
  by (simp add: frame_def length_block nth_block)

text \<open>The loop by cases: it stops on the empty stack and on a node with the name of
  \<open>m\<close>, it visits a node whose name is new, and it drops a node whose name is not.  What
  holds of every stop and is carried back over every round holds of every run that
  returns.\<close>

lemma blockLoop_run_induct [consumes 1, case_names empty cycle visit skip]:
  assumes run: "blockLoop m nodes vis h = Some r"
    and empty: "\<And>vis h. P [] vis h (None, h)"
    and cycle: "\<And>rest node vis h. name (h ! node) = name (h ! m) \<Longrightarrow>
        P (rest @ [node]) vis h (Some CircularDependency, h)"
    and visit: "\<And>rest node vis h r.
        name (h ! node) \<noteq> name (h ! m) \<Longrightarrow> \<not> vis (name (h ! node)) \<Longrightarrow>
        P (pushUnvisited (block node h) (vis(name (h ! node) := True))
             (dependencyOf (block node h ! node)) rest)
          (vis(name (h ! node) := True)) (block node h) r \<Longrightarrow>
        P (rest @ [node]) vis h r"
    and skip: "\<And>rest node vis h r.
        name (h ! node) \<noteq> name (h ! m) \<Longrightarrow> vis (name (h ! node)) \<Longrightarrow>
        P rest vis h r \<Longrightarrow> P (rest @ [node]) vis h r"
  shows "P nodes vis h r"
proof -
  have "m = m \<longrightarrow> P nodes vis h r"
  proof (rule blockLoop.raw_induct [where P = "\<lambda>m' nodes vis h r. m' = m \<longrightarrow> P nodes vis h r",
        OF _ run])
    fix f m' nodes vis h r
    assume IH: "\<And>m' nodes vis h r. f m' nodes vis h = Some r \<Longrightarrow> m' = m \<longrightarrow> P nodes vis h r"
      and eq: "(if Len nodes = 0 then Some (None, h)
        else case Pop nodes of Inl e \<Rightarrow> Some (Some NilDereference, h)
             | Inr (node, nodes') \<Rightarrow>
                 if name (h ! node) = name (h ! m') then Some (Some CircularDependency, h)
                 else if \<not> vis (name (h ! node))
                      then f m'
                            (pushUnvisited (block node h) (vis(name (h ! node) := True))
                              (dependencyOf (block node h ! node)) nodes')
                            (vis(name (h ! node) := True)) (block node h)
                      else f m' nodes' vis h) = Some r"
    show "m' = m \<longrightarrow> P nodes vis h r"
    proof
      assume m': "m' = m"
      show "P nodes vis h r"
      proof (cases nodes rule: rev_cases)
        case Nil
        with eq have "r = (None, h)" by (simp add: Len_def)
        with Nil empty show ?thesis by simp
      next
        case (snoc rest node)
        consider "name (h ! node) = name (h ! m)"
          | "name (h ! node) \<noteq> name (h ! m)" "\<not> vis (name (h ! node))"
          | "name (h ! node) \<noteq> name (h ! m)" "vis (name (h ! node))"
          by blast
        then show ?thesis
        proof cases
          case 1
          with eq snoc m' have "r = (Some CircularDependency, h)"
            by (simp add: Len_def Pop_snoc)
          with 1 snoc cycle show ?thesis by simp
        next
          case 2
          with eq snoc m' have "f m
              (pushUnvisited (block node h) (vis(name (h ! node) := True))
                 (dependencyOf (block node h ! node)) rest)
              (vis(name (h ! node) := True)) (block node h) = Some r"
            by (simp add: Len_def Pop_snoc)
          from IH [OF this] 2 snoc show ?thesis by (simp add: visit)
        next
          case 3
          with eq snoc m' have "f m rest vis h = Some r"
            by (simp add: Len_def Pop_snoc)
          from IH [OF this] 3 snoc show ?thesis by (simp add: skip)
        qed
      qed
    qed
  qed
  then show ?thesis by simp
qed

lemma blockLoop_frame:
  assumes "blockLoop m nodes vis h = Some r"
  shows "frame h (snd r)"
  using assms
proof (induction rule: blockLoop_run_induct)
  case (visit rest node vis h r)
  then show ?case using frame_block frame_trans by blast
qed (simp_all add: frame_refl)

lemma blockLoop_error:
  assumes "blockLoop m nodes vis h = Some r"
  shows "fst r = None \<or> fst r = Some CircularDependency"
  using assms by (induction rule: blockLoop_run_induct) simp_all

subsection \<open>The loops of \<^verbatim>\<open>Step\<close>\<close>

lemma fold_ready:
  "fold (\<lambda>dependency d. if ready h dependency then d @ [dependency] else d) ds acc =
   acc @ filter (ready h) ds"
  by (induction ds arbitrary: acc) simp_all

lemma StepLoop_unresolved:
  "\<exists>n\<in>set nodes. status (h ! n) = None \<Longrightarrow> \<exists>nm. StepLoop h nodes depth = Inl (NotResolved nm)"
  by (induction nodes arbitrary: depth) auto

lemma StepLoop_resolved:
  "\<forall>n\<in>set nodes. status (h ! n) \<noteq> None \<Longrightarrow>
   StepLoop h nodes depth =
     Inr (depth @ concat (map (\<lambda>n. filter (ready h) (dependencyOf (h ! n))) nodes))"
  by (induction nodes arbitrary: depth) (simp_all add: fold_ready)

subsection \<open>The traversal returns\<close>

lemma wf_store_nth:
  "wf_store h \<longleftrightarrow> (\<forall>k<length h. \<forall>d\<in>set (dependencyOf (h ! k)). d < length h)"
  by (auto simp: wf_store_def list_all_iff all_set_conv_all_nth)

lemma frame_wf_store: "frame h h' \<Longrightarrow> wf_store h \<Longrightarrow> wf_store h'"
  by (simp add: wf_store_nth frame_def)

lemma frame_names: "frame h h' \<Longrightarrow> map name h' = map name h"
  by (rule nth_equalityI) (simp_all add: frame_def)

lemma unvisited_frame: "frame h h' \<Longrightarrow> unvisited vis h' = unvisited vis h"
  by (simp add: unvisited_def frame_names)

lemma unvisited_less:
  assumes "n < length h" "\<not> vis (name (h ! n))"
  shows "unvisited (vis(name (h ! n) := True)) h < unvisited vis h"
proof -
  let ?A = "{x \<in> set (map name h). \<not> (vis(name (h ! n) := True)) x}"
  let ?B = "{x \<in> set (map name h). \<not> vis x}"
  have "?A \<subseteq> ?B" by auto
  moreover have "name (h ! n) \<in> ?B" using assms by simp
  moreover have "name (h ! n) \<notin> ?A" by simp
  ultimately have "?A \<subset> ?B" by blast
  moreover have "finite ?B" by simp
  ultimately show ?thesis
    unfolding unvisited_def by (rule psubset_card_mono [rotated])
qed

lemma blockLoop_returns:
  assumes "wf_store h" "\<forall>n\<in>set nodes. n < length h"
  shows "\<exists>r. blockLoop m nodes vis h = Some r"
  using assms
proof (induction "(unvisited vis h, length nodes)" arbitrary: nodes vis h
    rule: wf_induct_rule [OF wf_lex_prod [OF wf_less_than wf_less_than]])
  case less: 1
  show ?case
  proof (cases nodes rule: rev_cases)
    case Nil
    then show ?thesis by (subst blockLoop.simps) (simp add: Len_def)
  next
    case (snoc rest node)
    from less.prems snoc have node: "node < length h" and rest: "\<forall>n\<in>set rest. n < length h"
      by simp_all
    show ?thesis
    proof (cases "name (h ! node) = name (h ! m)")
      case True
      with snoc show ?thesis by (subst blockLoop.simps) (simp add: Len_def Pop_snoc)
    next
      case differs: False
      show ?thesis
      proof (cases "vis (name (h ! node))")
        case True
        have "\<exists>r. blockLoop m rest vis h = Some r"
          using less.prems(1) rest snoc by (intro less.hyps) simp_all
        with snoc differs True show ?thesis
          by (subst blockLoop.simps) (simp add: Len_def Pop_snoc)
      next
        case False
        let ?vis = "vis(name (h ! node) := True)"
        let ?h = "block node h"
        let ?st = "pushUnvisited ?h ?vis (dependencyOf (?h ! node)) rest"
        have fr: "frame h ?h" by (rule frame_block)
        have "unvisited ?vis ?h < unvisited vis h"
          using unvisited_less [of node h vis] node False by (simp add: unvisited_frame [OF fr])
        moreover have "wf_store ?h" using fr less.prems(1) by (rule frame_wf_store)
        moreover have "\<forall>n\<in>set ?st. n < length ?h"
          using rest node less.prems(1) fr
          by (auto simp: pushUnvisited_filter length_block wf_store_nth frame_def)
        ultimately have "\<exists>r. blockLoop m ?st ?vis ?h = Some r"
          by (intro less.hyps) simp_all
        with snoc differs False show ?thesis
          by (subst blockLoop.simps) (simp add: Len_def Pop_snoc)
      qed
    qed
  qed
qed

subsection \<open>The updates of \<^verbatim>\<open>Pass\<close> and \<^verbatim>\<open>Fail\<close>\<close>

lemma length_setStatus: "length (setStatus m f h) = length h"
  by (simp add: setStatus_def)

lemma nth_setStatus:
  "setStatus m f h ! k =
     (if k = m \<and> m < length h then (h ! m)\<lparr>status := Some \<lparr>Failed = f\<rparr>\<rparr> else h ! k)"
  by (cases "k = m"; cases "m < length h") (simp_all add: setStatus_def list_update_beyond)

lemma length_decrement: "length (decrement d h) = length h"
  by (simp add: decrement_def)

lemma nth_decrement:
  "decrement d h ! k =
     (if k = d \<and> d < length h then (h ! d)\<lparr>depsRemaining := depsRemaining (h ! d) - 1\<rparr>
      else h ! k)"
  by (cases "k = d"; cases "d < length h") (simp_all add: decrement_def list_update_beyond)

lemma length_decrementAll: "length (decrementAll deps h) = length h"
  unfolding decrementAll_def by (induction deps arbitrary: h) (simp_all add: length_decrement)

lemma decrementAll_fields:
  "name (decrementAll deps h ! k) = name (h ! k) \<and>
   blocked (decrementAll deps h ! k) = blocked (h ! k) \<and>
   hasDependencies (decrementAll deps h ! k) = hasDependencies (h ! k) \<and>
   dependencyOf (decrementAll deps h ! k) = dependencyOf (h ! k) \<and>
   status (decrementAll deps h ! k) = status (h ! k)"
  unfolding decrementAll_def by (induction deps arbitrary: h) (simp_all add: nth_decrement)

lemma decrementAll_counter:
  "k < length h \<Longrightarrow>
   depsRemaining (decrementAll deps h ! k) = depsRemaining (h ! k) - of_nat (count_list deps k)"
  unfolding decrementAll_def
  by (induction deps arbitrary: h) (simp_all add: nth_decrement length_decrement)

lemma Pass_status:
  "Pass h a = (e, h') \<Longrightarrow> status (h ! k) \<noteq> None \<Longrightarrow> status (h' ! k) = status (h ! k)"
  by (auto simp: Pass_def Let_def decrementAll_fields nth_setStatus split: if_splits)

lemma Fail_frame:
  assumes "Fail h a = Some (e, h')" "status (h ! a) = None"
  shows "frame (decrementAll (dependencyOf (h ! a)) (setStatus a True h)) h'"
proof -
  have "dependencyOf (setStatus a True h ! a) = dependencyOf (h ! a)"
    by (simp add: nth_setStatus)
  with assms show ?thesis
    by (auto simp: Fail_def Let_def dest: blockLoop_frame)
qed

lemma Fail_status:
  assumes "Fail h a = Some (e, h')" "status (h ! k) \<noteq> None"
  shows "status (h' ! k) = status (h ! k)"
proof (cases "status (h ! a) = None")
  case True
  with assms(2) have "k \<noteq> a" by auto
  with Fail_frame [OF assms(1) True] show ?thesis
    by (simp add: frame_def decrementAll_fields nth_setStatus)
next
  case False
  with assms(1) show ?thesis by (simp add: Fail_def)
qed

subsection \<open>The traversal blocks what is behind the failed node\<close>









subsection \<open>\<^verbatim>\<open>Fail\<close> as a whole\<close>

text \<open>The store at the entry of the traversal has the names, the flags and the edges
  of the store \<^verbatim>\<open>Fail\<close> was called on.\<close>

lemma Fail_unfold:
  assumes "status (h ! a) = None"
  shows "Fail h a =
     blockLoop a (dependencyOf (h ! a)) ((\<lambda>_. False)(name (h ! a) := True))
       (decrementAll (dependencyOf (h ! a)) (setStatus a True h))"
  using assms
  by (simp add: Fail_def Let_def fold_Push New_def decrementAll_fields nth_setStatus)

lemma entry_fields:
  "name (decrementAll ds (setStatus a f h) ! k) = name (h ! k) \<and>
   blocked (decrementAll ds (setStatus a f h) ! k) = blocked (h ! k) \<and>
   dependencyOf (decrementAll ds (setStatus a f h) ! k) = dependencyOf (h ! k)"
  by (simp add: decrementAll_fields nth_setStatus)

lemma entry_length: "length (decrementAll ds (setStatus a f h)) = length h"
  by (simp add: length_decrementAll length_setStatus)

lemma entry_wf_store: "wf_store h \<Longrightarrow> wf_store (decrementAll ds (setStatus a f h))"
  by (simp add: wf_store_nth entry_fields entry_length)





lemma blockLoop_no_cycle_error:
  assumes run: "blockLoop m nodes vis h = Some r"
  shows "vis (name (h ! m)) \<Longrightarrow> \<forall>n\<in>set nodes. name (h ! n) \<noteq> name (h ! m) \<Longrightarrow> fst r = None"
  using run
proof (induction rule: blockLoop_run_induct)
  case (visit rest node vis h r)
  let ?vis = "vis(name (h ! node) := True)"
  have nm: "\<And>k. name (block node h ! k) = name (h ! k)"
    using frame_block [of h node] by (simp add: frame_def)
  have "?vis (name (block node h ! m))" using visit.prems(1) by (simp add: nm)
  moreover have "\<forall>n\<in>set (pushUnvisited (block node h) ?vis (dependencyOf (block node h ! node)) rest).
      name (block node h ! n) \<noteq> name (block node h ! m)"
    using visit.prems by (auto simp: pushUnvisited_filter nm)
  ultimately show ?case by (rule visit.IH)
qed simp_all

text \<open>The cycle error needs a direct dependent that carries the name of the failed
  node, and \<^verbatim>\<open>DependsOn\<close> registers no such edge.\<close>

lemma Fail_cycle_error_only_direct:
  assumes "Fail h a = Some (Some CircularDependency, h')"
  shows "\<exists>d\<in>set (dependencyOf (h ! a)). name (h ! d) = name (h ! a)"
proof (rule ccontr)
  assume none: "\<not> (\<exists>d\<in>set (dependencyOf (h ! a)). name (h ! d) = name (h ! a))"
  let ?ds = "dependencyOf (h ! a)"
  let ?h0 = "decrementAll ?ds (setStatus a True h)"
  from assms have unset: "status (h ! a) = None" by (auto simp: Fail_def split: if_splits)
  with assms have loop: "blockLoop a ?ds ((\<lambda>_. False)(name (h ! a) := True)) ?h0 =
      Some (Some CircularDependency, h')"
    by (simp add: Fail_unfold)
  have nm: "\<And>k. name (?h0 ! k) = name (h ! k)"
    by (simp add: decrementAll_fields nth_setStatus)
  from blockLoop_no_cycle_error [OF loop] none show False
    by (simp add: nm)
qed

text \<open>Without such a dependent, \<^verbatim>\<open>Fail\<close> on an unresolved node of a well-formed store
  returns \<^verbatim>\<open>nil\<close>.\<close>

lemma Fail_returns_nil:
  assumes "wf_store h" "a < length h" "status (h ! a) = None"
    and "\<forall>d\<in>set (dependencyOf (h ! a)). name (h ! d) \<noteq> name (h ! a)"
  shows "\<exists>h'. Fail h a = Some (None, h')"
proof -
  let ?ds = "dependencyOf (h ! a)"
  let ?h0 = "decrementAll ?ds (setStatus a True h)"
  let ?vis = "(\<lambda>_. False)(name (h ! a) := True)"
  have "wf_store ?h0" using assms(1) by (rule entry_wf_store)
  moreover have "\<forall>n\<in>set ?ds. n < length ?h0"
    using assms(1,2) by (auto simp: wf_store_nth entry_length)
  ultimately obtain r where r: "blockLoop a ?ds ?vis ?h0 = Some r"
    using blockLoop_returns by blast
  have "fst r = None"
    using blockLoop_no_cycle_error [OF r] assms(4) by (simp add: entry_fields)
  with r assms(3) show ?thesis by (cases r) (simp add: Fail_unfold)
qed

subsection \<open>Stores built through the interface\<close>

lemma DependsOn_accepted:
  assumes "DependsOn h m dep = (None, h')" "m < length h" "dep < length h"
  shows "length h' = length h"
    and "name (h' ! k) = name (h ! k)"
    and "dependencyOf (h' ! k) = (if k = dep then dependencyOf (h ! dep) @ [m] else dependencyOf (h ! k))"
    and "name (h ! dep) \<noteq> name (h ! m)"
  using assms
  by (auto simp: DependsOn_def Let_def nth_list_update split: if_splits)

lemma DependsOn_rejected: "DependsOn h m dep = (Some e, h') \<Longrightarrow> h' = h"
  by (auto simp: DependsOn_def Let_def split: if_splits)

lemma same_graph_invariants:
  assumes "length h' = length h"
    and "\<And>k. name (h' ! k) = name (h ! k)"
    and "\<And>k. dependencyOf (h' ! k) = dependencyOf (h ! k)"
  shows "wf_store h \<Longrightarrow> wf_store h'" and "no_own_name h \<Longrightarrow> no_own_name h'"
  using assms by (simp_all add: wf_store_nth no_own_name_def)

lemma NewNode_invariants:
  "wf_store h \<Longrightarrow> wf_store (snd (NewNode n h))"
  "wf_store h \<Longrightarrow> no_own_name h \<Longrightarrow> no_own_name (snd (NewNode n h))"
  by (auto simp: wf_store_nth no_own_name_def NewNode_def zeroNode_def nth_append less_Suc_eq)

lemma DependsOn_invariants:
  assumes "m < length h" "dep < length h"
  shows "wf_store h \<Longrightarrow> wf_store (snd (DependsOn h m dep))"
    and "no_own_name h \<Longrightarrow> no_own_name (snd (DependsOn h m dep))"
proof -
  obtain e h' where r: "DependsOn h m dep = (e, h')" by (cases "DependsOn h m dep")
  show "wf_store h \<Longrightarrow> wf_store (snd (DependsOn h m dep))"
  proof (cases e)
    case None
    assume "wf_store h"
    with DependsOn_accepted [OF r [unfolded None] assms] assms(1) show ?thesis
      by (auto simp: r wf_store_nth)
  next
    case (Some x)
    assume "wf_store h"
    with DependsOn_rejected [OF r [unfolded Some]] show ?thesis by (simp add: r)
  qed
  show "no_own_name h \<Longrightarrow> no_own_name (snd (DependsOn h m dep))"
  proof (cases e)
    case None
    assume "no_own_name h"
    with DependsOn_accepted [OF r [unfolded None] assms] show ?thesis
      by (auto simp: r no_own_name_def)
  next
    case (Some x)
    assume "no_own_name h"
    with DependsOn_rejected [OF r [unfolded Some]] show ?thesis by (simp add: r)
  qed
qed

lemma Pass_invariants:
  "wf_store h \<Longrightarrow> wf_store (snd (Pass h m))"
  "no_own_name h \<Longrightarrow> no_own_name (snd (Pass h m))"
  by (rule same_graph_invariants [where h = h];
      simp add: Pass_def Let_def entry_fields entry_length nth_setStatus)+

lemma Fail_invariants:
  assumes "Fail h m = Some (e, h')"
  shows "wf_store h \<Longrightarrow> wf_store h'" and "no_own_name h \<Longrightarrow> no_own_name h'"
proof -
  have same: "length h' = length h \<and> (\<forall>k. name (h' ! k) = name (h ! k) \<and>
      dependencyOf (h' ! k) = dependencyOf (h ! k))"
  proof (cases "status (h ! m) = None")
    case True
    from Fail_frame [OF assms True] show ?thesis
      by (simp add: frame_def entry_fields entry_length)
  next
    case False
    with assms show ?thesis by (simp add: Fail_def)
  qed
  then show "wf_store h \<Longrightarrow> wf_store h'" and "no_own_name h \<Longrightarrow> no_own_name h'"
    by (simp_all add: wf_store_nth no_own_name_def)
qed

lemma built_invariants: "built h \<Longrightarrow> wf_store h \<and> no_own_name h"
proof (induction rule: built.induct)
  case built_empty
  show ?case by (simp add: wf_store_def no_own_name_def)
next
  case (built_NewNode h n)
  then show ?case by (simp add: NewNode_invariants)
next
  case (built_DependsOn h m dep)
  then show ?case by (simp add: DependsOn_invariants)
next
  case (built_Pass h m)
  then show ?case by (simp add: Pass_invariants)
next
  case (built_Fail h m e h')
  then show ?case using Fail_invariants by blast
qed

text \<open>In a store that the interface has built, neither the cycle error nor the
  duplicate error is ever returned.\<close>

lemma built_no_cycle_error:
  assumes "built h" "a < length h"
  shows "Fail h a \<noteq> Some (Some CircularDependency, h')"
proof
  assume "Fail h a = Some (Some CircularDependency, h')"
  from Fail_cycle_error_only_direct [OF this] built_invariants [OF assms(1)] assms(2)
  show False by (auto simp: no_own_name_def)
qed

lemma built_no_duplicate_error:
  assumes "built h" "dep < length h"
  shows "DependsOn h m dep \<noteq> (Some (DuplicateDependency x), h')"
  using built_invariants [OF assms(1)] assms(2)
  by (auto simp: DependsOn_def Let_def no_own_name_def list_ex_iff split: if_splits)





subsection \<open>Arithmetic of the counter and facts about concrete graphs\<close>

lemma sint_pred:
  fixes x :: "64 word"
  assumes "- (2 ^ 63) < sint x"
  shows "sint (x - 1) = sint x - 1"
proof -
  have "sint x < 2 ^ 63" using sint_lt [of x] by simp
  with assms have "signed_take_bit 63 (sint x - 1) = sint x - 1"
    by (intro signed_take_bit_int_eq_self) simp_all
  then show ?thesis by (simp add: sint_word_diff)
qed



section \<open>The claims\<close>

subsection \<open>C1: failing a node on a cycle\<close>

text \<open>
  C1 says that \<^verbatim>\<open>Fail\<close> on a node of a cycle returns the circular-dependency error.
  The traversal marks the name of the failed node as visited before it starts and
  pushes unvisited dependents only, so the failed node is never pushed again and the
  test \<^verbatim>\<open>node.name == m.name\<close> never sees it.  On the cycle of \<open>X\<close>, \<open>Y\<close> and \<open>Z\<close>, built
  through \<^verbatim>\<open>DependsOn\<close>, each of the three calls returns \<^verbatim>\<open>nil\<close>.
\<close>

theorem Fail_cycle_undetected:
  "map dependencyOf cycle3 = [[2], [0], [1]] \<and>
   map_option fst (Fail cycle3 0) = Some None \<and>
   map_option fst (Fail cycle3 1) = Some None \<and>
   map_option fst (Fail cycle3 2) = Some None"
  by code_simp

subsection \<open>C2: what a failure blocks\<close>




subsection \<open>C3: a result is applied once\<close>

text \<open>
  C3: on a node whose status is set, \<^verbatim>\<open>Pass\<close> and \<^verbatim>\<open>Fail\<close> return the already-resolved
  error and leave the store as it is.  A call that succeeds sets the status, so the
  next call is such a one; and no call of \<^verbatim>\<open>Pass\<close> or \<^verbatim>\<open>Fail\<close>, on any node, changes a
  status that is set.
\<close>

theorem resolve_once:
  "(status (h ! a) \<noteq> None \<longrightarrow>
      Pass h a = (Some AlreadyResolved, h) \<and> Fail h a = Some (Some AlreadyResolved, h)) \<and>
   (a < length h \<and> Pass h a = (None, h') \<longrightarrow> status (h' ! a) = Some \<lparr>Failed = False\<rparr>) \<and>
   (a < length h \<and> Fail h a = Some (None, h') \<longrightarrow> status (h' ! a) = Some \<lparr>Failed = True\<rparr>) \<and>
   ((Pass h a = (e, h') \<or> Fail h a = Some (e, h')) \<and> status (h ! k) \<noteq> None \<longrightarrow>
      status (h' ! k) = status (h ! k))"
proof (intro conjI impI)
  assume "status (h ! a) \<noteq> None"
  then show "Pass h a = (Some AlreadyResolved, h)" by (simp add: Pass_def)
next
  assume "status (h ! a) \<noteq> None"
  then show "Fail h a = Some (Some AlreadyResolved, h)" by (simp add: Fail_def)
next
  assume "a < length h \<and> Pass h a = (None, h')"
  then show "status (h' ! a) = Some \<lparr>Failed = False\<rparr>"
    by (auto simp: Pass_def Let_def decrementAll_fields nth_setStatus split: if_splits)
next
  assume *: "a < length h \<and> Fail h a = Some (None, h')"
  then have "status (h ! a) = None" by (auto simp: Fail_def split: if_splits)
  with * Fail_frame [of h a None h'] show "status (h' ! a) = Some \<lparr>Failed = True\<rparr>"
    by (simp add: frame_def decrementAll_fields nth_setStatus)
next
  assume "(Pass h a = (e, h') \<or> Fail h a = Some (e, h')) \<and> status (h ! k) \<noteq> None"
  then show "status (h' ! k) = status (h ! k)"
    using Pass_status Fail_status by blast
qed

theorem resolve_once_witness:
  "Pass chain 0 = (None, chainPassed) \<and>
   status (chainPassed ! 0) = Some \<lparr>Failed = False\<rparr> \<and>
   Pass chainPassed 0 = (Some AlreadyResolved, chainPassed) \<and>
   Fail chainPassed 0 = Some (Some AlreadyResolved, chainPassed) \<and>
   Fail chain 0 = Some (None, chainFailed) \<and>
   status (chainFailed ! 0) = Some \<lparr>Failed = True\<rparr> \<and>
   Pass chainFailed 0 = (Some AlreadyResolved, chainFailed) \<and>
   Fail chainFailed 0 = Some (Some AlreadyResolved, chainFailed) \<and>
   status (snd (Pass chainFailed 1) ! 0) = Some \<lparr>Failed = True\<rparr>"
proof -
  have len: "0 < length chain" by code_simp
  have p: "Pass chain 0 = (None, chainPassed)" by code_simp
  have f: "Fail chain 0 = Some (None, chainFailed)" by code_simp
  have sp: "status (chainPassed ! 0) = Some \<lparr>Failed = False\<rparr>"
    using resolve_once [of chain 0 chainPassed] len p by blast
  have sf: "status (chainFailed ! 0) = Some \<lparr>Failed = True\<rparr>"
    using resolve_once [of chain 0 chainFailed] len f by blast
  have "Pass chainPassed 0 = (Some AlreadyResolved, chainPassed) \<and>
      Fail chainPassed 0 = Some (Some AlreadyResolved, chainPassed)"
    using resolve_once [of chainPassed 0] sp by simp
  moreover have "Pass chainFailed 0 = (Some AlreadyResolved, chainFailed) \<and>
      Fail chainFailed 0 = Some (Some AlreadyResolved, chainFailed)"
    using resolve_once [of chainFailed 0] sf by simp
  moreover have "status (snd (Pass chainFailed 1) ! 0) = Some \<lparr>Failed = True\<rparr>"
    using resolve_once [of chainFailed 1 "snd (Pass chainFailed 1)" "fst (Pass chainFailed 1)" 0] sf
    by simp
  ultimately show ?thesis using p f sp sf by simp
qed

subsection \<open>C4: registering an edge twice\<close>

text \<open>
  C4 says that a second \<^verbatim>\<open>DependsOn\<close> for the same pair returns the duplicate error and
  adds no edge.  The loop of the code compares \<^verbatim>\<open>d.name\<close> with \<^verbatim>\<open>dep.name\<close>, the name of
  the node whose list it walks, not with \<^verbatim>\<open>m.name\<close>: the second call returns \<^verbatim>\<open>nil\<close>,
  the edge is there twice and the counter of the dependent is 2.
\<close>

theorem DependsOn_duplicate_accepted:
  "DependsOn pair 1 0 = (None, pairOnce) \<and>
   dependencyOf (pairOnce ! 0) = [1] \<and>
   depsRemaining (pairOnce ! 1) = 1 \<and>
   DependsOn pairOnce 1 0 = (None, pairTwice) \<and>
   dependencyOf (pairTwice ! 0) = [1, 1] \<and>
   depsRemaining (pairTwice ! 1) = 2"
  by code_simp

subsection \<open>C5: the next frontier\<close>

text \<open>
  C5: \<^verbatim>\<open>Step\<close> returns the not-resolved error when the status of some input node is
  unset.  Otherwise it returns, for each input node in turn, those of its direct
  dependents that are not blocked and wait for nothing, in the order of the edge
  list and without removing duplicates.
\<close>

theorem Step_frontier:
  "((\<exists>n\<in>set nodes. status (h ! n) = None) \<longrightarrow> (\<exists>nm. Step h nodes = Inl (NotResolved nm))) \<and>
   ((\<forall>n\<in>set nodes. status (h ! n) \<noteq> None) \<longrightarrow>
      Step h nodes =
        Inr (concat (map (\<lambda>n. filter (\<lambda>d. \<not> blocked (h ! d) \<and> depsRemaining (h ! d) = 0)
                                  (dependencyOf (h ! n))) nodes)))"
proof -
  have "ready h = (\<lambda>d. \<not> blocked (h ! d) \<and> depsRemaining (h ! d) = 0)"
    by (simp add: ready_def fun_eq_iff)
  then show ?thesis
    using StepLoop_unresolved [of nodes h "[]"] StepLoop_resolved [of nodes h "[]"]
    by (simp add: Step_def)
qed

theorem Step_frontier_witness:
  "status (diamondA ! 3) = None \<and>
   Step diamondA [0, 3] = Inl (NotResolved ''D'') \<and>
   status (diamondAD ! 0) \<noteq> None \<and> status (diamondAD ! 3) \<noteq> None \<and>
   Step diamondAD [0, 3] = Inr [1]"
proof -
  have open3: "status (diamondA ! 3) = None" by code_simp
  then have "\<exists>n\<in>set [0, 3]. status (diamondA ! n) = None" by simp
  with Step_frontier [of "[0, 3]" diamondA]
  obtain nm where "Step diamondA [0, 3] = Inl (NotResolved nm)" by blast
  moreover have "Step diamondA [0, 3] = Inl (NotResolved ''D'')" by code_simp
  moreover have done0: "status (diamondAD ! 0) \<noteq> None" and done3: "status (diamondAD ! 3) \<noteq> None"
    by code_simp+
  then have "\<forall>n\<in>set [0, 3]. status (diamondAD ! n) \<noteq> None" by simp
  with Step_frontier [of "[0, 3]" diamondAD]
  have "Step diamondAD [0, 3] =
      Inr (concat (map (\<lambda>n. filter (\<lambda>d. \<not> blocked (diamondAD ! d) \<and> depsRemaining (diamondAD ! d) = 0)
                                (dependencyOf (diamondAD ! n))) [0, 3]))"
    by blast
  moreover have "concat (map (\<lambda>n. filter (\<lambda>d. \<not> blocked (diamondAD ! d) \<and> depsRemaining (diamondAD ! d) = 0)
                                (dependencyOf (diamondAD ! n))) [0, 3]) = [1]"
    by code_simp
  ultimately show ?thesis using open3 done0 done3 by simp
qed

subsection \<open>C6: the counters of the dependents\<close>

text \<open>
  C6: a call of \<^verbatim>\<open>Pass\<close> or \<^verbatim>\<open>Fail\<close> on \<open>a\<close> that returns \<^verbatim>\<open>nil\<close> takes from the counter of
  a node \<open>b\<close> one for each edge from \<open>a\<close> to \<open>b\<close>, in the wrap-around arithmetic of the
  counter; for a single edge and a counter above the least \<^verbatim>\<open>int\<close>, the counter read as
  a signed number goes down by exactly 1.  A call that returns the already-resolved
  error leaves the whole store, so every counter, as it was.
\<close>

theorem resolve_decrements:
  assumes "b < length h"
  shows
   "((Pass h a = (None, h') \<or> Fail h a = Some (None, h')) \<longrightarrow>
       depsRemaining (h' ! b) =
         depsRemaining (h ! b) - of_nat (count_list (dependencyOf (h ! a)) b) \<and>
       (count_list (dependencyOf (h ! a)) b = 1 \<and> - (2 ^ 63) < sint (depsRemaining (h ! b)) \<longrightarrow>
          sint (depsRemaining (h' ! b)) = sint (depsRemaining (h ! b)) - 1)) \<and>
    ((Pass h a = (Some AlreadyResolved, h') \<or> Fail h a = Some (Some AlreadyResolved, h')) \<longrightarrow>
       h' = h)"
proof (intro conjI impI)
  assume ok: "Pass h a = (None, h') \<or> Fail h a = Some (None, h')"
  let ?ds = "dependencyOf (h ! a)"
  let ?h0 = "decrementAll ?ds (setStatus a True h)"
  have counter: "depsRemaining (decrementAll ?ds (setStatus a f h) ! b) =
      depsRemaining (h ! b) - of_nat (count_list ?ds b)" for f
    using assms by (simp add: decrementAll_counter length_setStatus nth_setStatus)
  from ok show eq: "depsRemaining (h' ! b) = depsRemaining (h ! b) - of_nat (count_list ?ds b)"
  proof
    assume "Pass h a = (None, h')"
    then have "h' = decrementAll ?ds (setStatus a False h)"
      by (auto simp: Pass_def Let_def nth_setStatus split: if_splits)
    then show ?thesis by (simp add: counter)
  next
    assume run: "Fail h a = Some (None, h')"
    then have "status (h ! a) = None" by (auto simp: Fail_def split: if_splits)
    from Fail_frame [OF run this] have "depsRemaining (h' ! b) = depsRemaining (?h0 ! b)"
      by (simp add: frame_def)
    then show ?thesis by (simp add: counter)
  qed
  assume "count_list ?ds b = 1 \<and> - (2 ^ 63) < sint (depsRemaining (h ! b))"
  with eq show "sint (depsRemaining (h' ! b)) = sint (depsRemaining (h ! b)) - 1"
    by (simp add: sint_pred)
next
  assume "Pass h a = (Some AlreadyResolved, h') \<or> Fail h a = Some (Some AlreadyResolved, h')"
  then show "h' = h"
  proof
    assume "Pass h a = (Some AlreadyResolved, h')"
    then show ?thesis by (auto simp: Pass_def Let_def split: if_splits)
  next
    assume run: "Fail h a = Some (Some AlreadyResolved, h')"
    show ?thesis
    proof (cases "status (h ! a) = None")
      case True
      with run have "blockLoop a (dependencyOf (h ! a)) ((\<lambda>_. False)(name (h ! a) := True))
          (decrementAll (dependencyOf (h ! a)) (setStatus a True h)) = Some (Some AlreadyResolved, h')"
        by (simp add: Fail_unfold)
      from blockLoop_error [OF this] show ?thesis by simp
    next
      case False
      with run show ?thesis by (simp add: Fail_def)
    qed
  qed
qed

theorem resolve_decrements_witness:
  "(1::nat) < length chain \<and>
   Pass chain 0 = (None, chainPassed) \<and> Fail chain 0 = Some (None, chainFailed) \<and>
   count_list (dependencyOf (chain ! 0)) 1 = 1 \<and>
   depsRemaining (chain ! 1) = 1 \<and>
   depsRemaining (chainPassed ! 1) = 0 \<and> depsRemaining (chainFailed ! 1) = 0 \<and>
   sint (depsRemaining (chainPassed ! 1)) = sint (depsRemaining (chain ! 1)) - 1 \<and>
   Pass chainPassed 0 = (Some AlreadyResolved, chainPassed) \<and>
   Fail chainFailed 0 = Some (Some AlreadyResolved, chainFailed)"
proof -
  have len: "(1::nat) < length chain" by code_simp
  have p: "Pass chain 0 = (None, chainPassed)" and f: "Fail chain 0 = Some (None, chainFailed)"
    by code_simp+
  have cnt: "count_list (dependencyOf (chain ! 0)) 1 = 1" by code_simp
  have before: "depsRemaining (chain ! 1) = 1" by code_simp
  then have range: "- (2 ^ 63) < sint (depsRemaining (chain ! 1))" by simp
  have again: "Pass chainPassed 0 = (Some AlreadyResolved, chainPassed)"
    "Fail chainFailed 0 = Some (Some AlreadyResolved, chainFailed)"
    by code_simp+
  from resolve_decrements [OF len, of 0 chainPassed] p cnt before range
  have "depsRemaining (chainPassed ! 1) = 0"
    "sint (depsRemaining (chainPassed ! 1)) = sint (depsRemaining (chain ! 1)) - 1"
    by simp_all
  moreover from resolve_decrements [OF len, of 0 chainFailed] f cnt before
  have "depsRemaining (chainFailed ! 1) = 0" by simp
  ultimately show ?thesis using len p f cnt before again by simp
qed

subsection \<open>C7: constructing a node\<close>

text \<open>
  C7 says that constructing a node from the empty string fails.  \<^verbatim>\<open>NewNode\<close> returns a
  \<^verbatim>\<open>*Node\<close> and nothing else, and does not look at the name: from the empty string it
  builds a node like from any other.
\<close>

theorem NewNode_empty_name_counterexample:
  "NewNode '''' [] =
     (0, [\<lparr>name = '''', blocked = False, hasDependencies = False, depsRemaining = 0,
           dependencyOf = [], status = None\<rparr>])"
  by (simp add: NewNode_def zeroNode_def)

text \<open>
  C7 as amended: \<^verbatim>\<open>NewNode\<close> builds, from every name, a node with that name that is
  unresolved and unblocked and has no edges, no dependencies and a counter of 0.  The
  empty name is refused by \<^verbatim>\<open>NewModule\<close> and by \<^verbatim>\<open>NewJob\<close>, which build the same node for
  every other name.
\<close>

theorem constructors_amended:
  "NewNode n h =
     (length h, h @ [\<lparr>name = n, blocked = False, hasDependencies = False, depsRemaining = 0,
                      dependencyOf = [], status = None\<rparr>]) \<and>
   NewModule '''' h = Inl EmptyName \<and>
   NewJob '''' h = Inl EmptyName \<and>
   (n \<noteq> '''' \<longrightarrow> NewModule n h = Inr (NewNode n h) \<and> NewJob n h = Inr (NewNode n h))"
  by (simp add: NewNode_def NewModule_def NewJob_def zeroNode_def)

theorem constructors_amended_witness:
  "''a'' \<noteq> '''' \<and>
   NewModule ''a'' [] = Inr (NewNode ''a'' []) \<and>
   NewJob ''a'' [] = Inr (NewNode ''a'' []) \<and>
   NewNode ''a'' [] =
     (0, [\<lparr>name = ''a'', blocked = False, hasDependencies = False, depsRemaining = 0,
           dependencyOf = [], status = None\<rparr>])"
  using constructors_amended [of "''a''" "[]"] by simp

subsection \<open>C8: a node does not depend on itself\<close>

text \<open>
  C8: \<^verbatim>\<open>A.DependsOn(A)\<close> returns the self-dependency error, and the store, so also the
  edge list, the counter and the flag of \<open>A\<close>, is what it was.
\<close>

theorem DependsOn_self_rejected: "DependsOn h a a = (Some SelfDependency, h)"
  by (simp add: DependsOn_def)

subsection \<open>C9: the self-dependency test compares names\<close>

text \<open>
  C9: for two different nodes that carry the same name, \<^verbatim>\<open>B.DependsOn(A)\<close> returns
  the self-dependency error and changes nothing.
\<close>

theorem DependsOn_same_name_rejected:
  "a \<noteq> b \<Longrightarrow> name (h ! a) = name (h ! b) \<Longrightarrow> DependsOn h b a = (Some SelfDependency, h)"
  by (simp add: DependsOn_def)

theorem DependsOn_same_name_rejected_witness:
  "(0::nat) \<noteq> 1 \<and> name (twins ! 0) = name (twins ! 1) \<and>
   DependsOn twins 1 0 = (Some SelfDependency, twins)"
proof -
  have "name (twins ! 0) = name (twins ! 1)" by code_simp
  then show ?thesis using DependsOn_same_name_rejected [of 0 1 twins] by simp
qed

subsection \<open>C10: the traversal ends\<close>

text \<open>
  C10: on every well-formed store, with or without cycles, \<^verbatim>\<open>Fail\<close> returns, and what it
  returns is not the panic of a \<^verbatim>\<open>nil\<close> node: the stack is never popped when it is empty.
  A node that is its own direct dependent is left aside: there the decrement loop of the
  code locks the mutex that \<^verbatim>\<open>Fail\<close> holds, which is outside this model, and
  \<^verbatim>\<open>DependsOn\<close> registers no such edge.
\<close>

theorem Fail_returns:
  assumes "wf_store h" "a < length h" "a \<notin> set (dependencyOf (h ! a))"
  shows "\<exists>e h'. Fail h a = Some (e, h') \<and> e \<noteq> Some NilDereference"
proof (cases "status (h ! a) = None")
  case True
  let ?ds = "dependencyOf (h ! a)"
  let ?h0 = "decrementAll ?ds (setStatus a True h)"
  have "wf_store ?h0" using assms(1) by (rule entry_wf_store)
  moreover have "\<forall>n\<in>set ?ds. n < length ?h0"
    using assms(1,2) by (auto simp: wf_store_nth entry_length)
  ultimately obtain r where r: "blockLoop a ?ds ((\<lambda>_. False)(name (h ! a) := True)) ?h0 = Some r"
    using blockLoop_returns by blast
  from blockLoop_error [OF r] have "fst r \<noteq> Some NilDereference" by auto
  with r True show ?thesis by (cases r) (simp add: Fail_unfold)
next
  case False
  then show ?thesis by (simp add: Fail_def)
qed

theorem Fail_returns_witness:
  "wf_store cycle3 \<and> (0::nat) < length cycle3 \<and> 0 \<notin> set (dependencyOf (cycle3 ! 0)) \<and>
   (\<exists>e h'. Fail cycle3 0 = Some (e, h') \<and> e \<noteq> Some NilDereference)"
proof -
  have wf: "wf_store cycle3" and len: "(0::nat) < length cycle3"
    and noself: "0 \<notin> set (dependencyOf (cycle3 ! 0))" by code_simp+
  with Fail_returns [of cycle3 0] show ?thesis by simp
qed

end
